theory Spec2Isabelle
  imports Complex_Main
begin

section \<open>Python values\<close>

text \<open>
  The module \<^verbatim>\<open>tuning.py\<close> reads a telemetry log, cuts it into sessions with a regular
  expression, converts the fields with \<^verbatim>\<open>float\<close> and \<^verbatim>\<open>int\<close>, and hands every sample
  series to \<^verbatim>\<open>find_osc_period\<close>.

  Conventions of the embedding:
  \<^item> a \<^verbatim>\<open>str\<close> is a \<open>string\<close>; a \<open>char\<close> stands for the code point of the same number
    (code points below 256);
  \<^item> a raised exception is the left injection of a sum;
  \<^item> a finite \<^verbatim>\<open>float\<close> is the real number it approximates: the value of an
    arithmetic expression is exact, overflow and underflow of IEEE doubles are not part
    of the model; where a statement depends on which of several computed numbers is
    the largest, the numeric routines of the library are a parameter, so that it holds
    whatever they round;
  \<^item> the file read of \<^verbatim>\<open>process_sessions\<close> is left to the caller: the function is
    modelled from the point where \<^verbatim>\<open>text\<close> holds the file's content.
\<close>

datatype py_error = AssertionError | ValueError | ZeroDivisionError | IndexError

datatype pyfloat = Fin real | PosInf | NegInf | NaN

text \<open>\<^verbatim>\<open>x / 1000.0\<close> on a float: infinities and NaN pass through.\<close>

fun fdiv :: "pyfloat \<Rightarrow> real \<Rightarrow> pyfloat" where
  "fdiv (Fin x) d = Fin (x / d)"
| "fdiv PosInf d = PosInf"
| "fdiv NegInf d = NegInf"
| "fdiv NaN d = NaN"

section \<open>Text helpers\<close>

abbreviation newline :: char where "newline \<equiv> CHR 0x0A"
abbreviation comma :: char where "comma \<equiv> CHR '',''"

text \<open>
  \<^verbatim>\<open>str.isspace\<close> below code point 256: tab to carriage return, the four
  information separators, space, NEL and the no-break space.
\<close>

definition str_isspace :: "char \<Rightarrow> bool" where
  "str_isspace c = (of_char c \<in> {9, 10, 11, 12, 13, 28, 29, 30, 31, 32, 133, 160 :: nat})"

text \<open>
  The white space that \<^verbatim>\<open>int\<close> and \<^verbatim>\<open>float\<close> skip around a numeral: the same set
  without the information separators 28 to 31.
\<close>

definition num_isspace :: "char \<Rightarrow> bool" where
  "num_isspace c = (of_char c \<in> {9, 10, 11, 12, 13, 32, 133, 160 :: nat})"

definition strip_with :: "(char \<Rightarrow> bool) \<Rightarrow> string \<Rightarrow> string" where
  "strip_with p s = rev (dropWhile p (rev (dropWhile p s)))"

text \<open>\<^verbatim>\<open>str.strip\<close> without argument.\<close>

definition str_strip :: "string \<Rightarrow> string" where
  "str_strip = strip_with str_isspace"

text \<open>\<^verbatim>\<open>s.split(d)\<close> for a one-character separator: never the empty list.\<close>

fun split_on :: "char \<Rightarrow> string \<Rightarrow> string list" where
  "split_on d [] = [[]]"
| "split_on d (c # cs) =
     (if c = d then [] # split_on d cs
      else (case split_on d cs of [] \<Rightarrow> [[c]] | l # ls \<Rightarrow> (c # l) # ls))"

section \<open>Numerals: \<^verbatim>\<open>int\<close> and \<^verbatim>\<open>float\<close> of a string\<close>

definition is_digit :: "char \<Rightarrow> bool" where
  "is_digit c = (48 \<le> (of_char c :: nat) \<and> (of_char c :: nat) \<le> 57)"

definition digit_val :: "char \<Rightarrow> nat" where
  "digit_val c = of_char c - 48"

text \<open>
  A digit part is \<^verbatim>\<open>digit (["_"] digit)*\<close>: an underscore stands only between two
  digits. \<open>digits_val\<close> runs after the first digit.
\<close>

fun digits_val :: "nat \<Rightarrow> string \<Rightarrow> nat option" where
  "digits_val acc [] = Some acc"
| "digits_val acc (c # cs) =
     (if is_digit c then digits_val (10 * acc + digit_val c) cs
      else if c = CHR ''_'' then
        (case cs of
           [] \<Rightarrow> None
         | d # ds \<Rightarrow> if is_digit d then digits_val (10 * acc + digit_val d) ds else None)
      else None)"

definition digitpart :: "string \<Rightarrow> nat option" where
  "digitpart s =
     (case s of [] \<Rightarrow> None
      | c # cs \<Rightarrow> if is_digit c then digits_val (digit_val c) cs else None)"

text \<open>An optional sign in front of a digit part; no white space in between.\<close>

definition signed_digitpart :: "string \<Rightarrow> int option" where
  "signed_digitpart t =
     (case t of [] \<Rightarrow> None
      | c # cs \<Rightarrow>
          if c = CHR ''-'' then map_option (\<lambda>n. - int n) (digitpart cs)
          else if c = CHR ''+'' then map_option int (digitpart cs)
          else map_option int (digitpart t))"

text \<open>\<^verbatim>\<open>int(s)\<close> in base ten; \<open>None\<close> is the \<^verbatim>\<open>ValueError\<close>.\<close>

definition py_int :: "string \<Rightarrow> int option" where
  "py_int s = signed_digitpart (strip_with num_isspace s)"

text \<open>
  \<^verbatim>\<open>float(s)\<close>. After the white space and the sign comes \<^verbatim>\<open>inf\<close>, \<^verbatim>\<open>infinity\<close> or
  \<^verbatim>\<open>nan\<close> in any case, or a number: a mantissa \<^verbatim>\<open>[digitpart] "." digitpart | digitpart ["."]\<close>
  and an optional exponent \<^verbatim>\<open>("e" | "E") ["+" | "-"] digitpart\<close>.
\<close>

definition to_lower :: "char \<Rightarrow> char" where
  "to_lower c =
     (if 65 \<le> (of_char c :: nat) \<and> (of_char c :: nat) \<le> 90
      then char_of (of_char c + (32 :: nat)) else c)"

definition is_exp_mark :: "char \<Rightarrow> bool" where
  "is_exp_mark c = (c = CHR ''e'' \<or> c = CHR ''E'')"

definition mantissa :: "string \<Rightarrow> real option" where
  "mantissa m =
     (let ip = takeWhile (\<lambda>c. c \<noteq> CHR ''.'') m;
          r = dropWhile (\<lambda>c. c \<noteq> CHR ''.'') m
      in case r of
           [] \<Rightarrow> map_option real (digitpart ip)
         | _ # fp \<Rightarrow>
             if ip = [] \<and> fp = [] then None
             else
               (case (if ip = [] then Some 0 else digitpart ip,
                      if fp = [] then Some 0 else digitpart fp) of
                  (Some iv, Some fv) \<Rightarrow>
                    Some (real iv + real fv / 10 ^ length (filter is_digit fp))
                | _ \<Rightarrow> None))"

definition unsigned_float :: "string \<Rightarrow> pyfloat option" where
  "unsigned_float t =
     (if map to_lower t = ''inf'' \<or> map to_lower t = ''infinity'' then Some PosInf
      else if map to_lower t = ''nan'' then Some NaN
      else
        (let m = takeWhile (\<lambda>c. \<not> is_exp_mark c) t;
             r = dropWhile (\<lambda>c. \<not> is_exp_mark c) t
         in case mantissa m of
              None \<Rightarrow> None
            | Some mv \<Rightarrow>
                (case r of
                   [] \<Rightarrow> Some (Fin mv)
                 | _ # e \<Rightarrow>
                     (case signed_digitpart e of
                        None \<Rightarrow> None
                      | Some ev \<Rightarrow>
                          Some (Fin (if 0 \<le> ev then mv * 10 ^ nat ev
                                     else mv / 10 ^ nat (- ev)))))))"

fun fneg :: "pyfloat \<Rightarrow> pyfloat" where
  "fneg (Fin x) = Fin (- x)"
| "fneg PosInf = NegInf"
| "fneg NegInf = PosInf"
| "fneg NaN = NaN"

definition py_float :: "string \<Rightarrow> pyfloat option" where
  "py_float s =
     (case strip_with num_isspace s of
        [] \<Rightarrow> None
      | c # cs \<Rightarrow>
          if c = CHR ''-'' then map_option fneg (unsigned_float cs)
          else if c = CHR ''+'' then unsigned_float cs
          else unsigned_float (c # cs))"

section \<open>Block discovery\<close>

text \<open>
  \<^verbatim>\<open>re.findall\<close> with the pattern \<^verbatim>\<open>^start(.+?)end.+?\[(.+?)\]$\<close> under
  \<^verbatim>\<open>MULTILINE | DOTALL\<close>. The matcher is the backtracking search of the pattern,
  one scan for each lazy quantifier, the innermost first; each scan tries the
  shorter repetition before the longer one. With \<^verbatim>\<open>DOTALL\<close> the dot takes every
  character, the line feed too.
\<close>

text \<open>\<^verbatim>\<open>$\<close> under \<^verbatim>\<open>MULTILINE\<close>: at the end of the text or in front of a line feed.\<close>

definition at_eol :: "string \<Rightarrow> bool" where
  "at_eol s = (case s of [] \<Rightarrow> True | c # _ \<Rightarrow> c = newline)"

text \<open>
  \<^verbatim>\<open>(.+?)\]$\<close>: the second group, \<open>acc\<close> holding (in reverse) what it has taken so far,
  at least one character. The result is the group and the text behind the match.
\<close>

fun gain_scan :: "string \<Rightarrow> string \<Rightarrow> (string \<times> string) option" where
  "gain_scan acc [] = None"
| "gain_scan acc (c # cs) =
     (if c = CHR '']'' \<and> at_eol cs then Some (rev acc, cs)
      else gain_scan (c # acc) cs)"

text \<open>\<^verbatim>\<open>.+?\[(.+?)\]$\<close> after the first character of \<^verbatim>\<open>.+?\<close> has been taken.\<close>

fun bracket_scan :: "string \<Rightarrow> (string \<times> string) option" where
  "bracket_scan [] = None"
| "bracket_scan (c # cs) =
     (case (if c = CHR ''['' then (case cs of [] \<Rightarrow> None | d # ds \<Rightarrow> gain_scan [d] ds)
            else None) of
        Some r \<Rightarrow> Some r
      | None \<Rightarrow> bracket_scan cs)"

text \<open>\<^verbatim>\<open>end.+?\[(.+?)\]$\<close> at the head of the text.\<close>

definition end_here :: "string \<Rightarrow> (string \<times> string) option" where
  "end_here s =
     (if take 3 s = ''end'' then (case drop 3 s of [] \<Rightarrow> None | _ # es \<Rightarrow> bracket_scan es)
      else None)"

text \<open>
  \<^verbatim>\<open>(.+?)end.+?\[(.+?)\]$\<close>: the first group, \<open>acc\<close> holding (in reverse) what it has
  taken so far, at least one character. The result is both groups and the text
  behind the match.
\<close>

fun body_scan :: "string \<Rightarrow> string \<Rightarrow> (string \<times> string \<times> string) option" where
  "body_scan acc [] = None"
| "body_scan acc (c # cs) =
     (case end_here (c # cs) of
        Some (g, rest) \<Rightarrow> Some (rev acc, g, rest)
      | None \<Rightarrow> body_scan (c # acc) cs)"

text \<open>The whole pattern at a position where \<^verbatim>\<open>^\<close> holds.\<close>

definition match_at :: "string \<Rightarrow> (string \<times> string \<times> string) option" where
  "match_at s =
     (if take 5 s = ''start'' then (case drop 5 s of [] \<Rightarrow> None | d # ds \<Rightarrow> body_scan [d] ds)
      else None)"

lemma gain_scan_shorter: "gain_scan acc s = Some (g, rest) \<Longrightarrow> length rest < length s"
  by (induction acc s rule: gain_scan.induct) (auto split: if_splits)

lemma bracket_scan_shorter: "bracket_scan s = Some (g, rest) \<Longrightarrow> length rest < length s"
proof (induction s)
  case Nil
  then show ?case by simp
next
  case (Cons c cs)
  show ?case
  proof (cases "if c = CHR ''['' then (case cs of [] \<Rightarrow> None | d # ds \<Rightarrow> gain_scan [d] ds)
                else None")
    case None
    with Cons show ?thesis by simp
  next
    case (Some r)
    with Cons.prems have r: "r = (g, rest)" by simp
    from Some r obtain d ds where "cs = d # ds" "gain_scan [d] ds = Some (g, rest)"
      by (auto split: if_splits list.splits)
    then show ?thesis using gain_scan_shorter by fastforce
  qed
qed

lemma end_here_shorter:
  assumes "end_here s = Some (g, rest)"
  shows "length rest < length s"
proof -
  from assms obtain e es where d: "drop 3 s = e # es" and b: "bracket_scan es = Some (g, rest)"
    unfolding end_here_def by (cases "drop 3 s") (simp_all split: if_splits)
  have "length (drop 3 s) \<le> length s" by simp
  with d have "length es < length s" by simp
  with bracket_scan_shorter[OF b] show ?thesis by simp
qed

lemma body_scan_shorter: "body_scan acc s = Some (b, g, rest) \<Longrightarrow> length rest < length s"
proof (induction acc s rule: body_scan.induct)
  case (1 acc)
  then show ?case by simp
next
  case (2 acc c cs)
  show ?case
  proof (cases "end_here (c # cs)")
    case None
    with 2 show ?thesis by simp
  next
    case (Some r)
    with "2.prems" have "end_here (c # cs) = Some (g, rest)"
      by (cases r) simp
    then show ?thesis by (rule end_here_shorter)
  qed
qed

lemma match_at_shorter:
  assumes "match_at s = Some (b, g, rest)"
  shows "length rest < length s"
proof -
  from assms obtain d ds where d: "drop 5 s = d # ds"
    and b: "body_scan [d] ds = Some (b, g, rest)"
    unfolding match_at_def by (cases "drop 5 s") (simp_all split: if_splits)
  have "length (drop 5 s) \<le> length s" by simp
  with d have "length ds < length s" by simp
  with body_scan_shorter[OF b] show ?thesis by simp
qed

text \<open>
  \<^verbatim>\<open>findall\<close>: the leftmost match, then on from where it ended. \<open>bol\<close> says whether
  \<^verbatim>\<open>^\<close> holds at the head of the text: at the start, and behind every line feed. A
  match ends with \<^verbatim>\<open>]\<close>, so \<^verbatim>\<open>^\<close> does not hold where it ended.
\<close>

function findall_from :: "bool \<Rightarrow> string \<Rightarrow> (string \<times> string) list" where
  "findall_from bol [] = []"
| "findall_from bol (c # cs) =
     (case (if bol then match_at (c # cs) else None) of
        Some (b, g, rest) \<Rightarrow> (b, g) # findall_from False rest
      | None \<Rightarrow> findall_from (c = newline) cs)"
  by pat_completeness auto
termination
proof (relation "measure (\<lambda>(bol, s). length s)")
  show "wf (measure (\<lambda>(bol, s). length s))" by simp
next
  fix bol :: bool and c :: char and cs :: string
    and x2 :: "string \<times> string \<times> string" and b :: string
    and y :: "string \<times> string" and g rest :: string
  assume "(if bol then match_at (c # cs) else None) = Some x2" and "(b, y) = x2"
    and "(g, rest) = y"
  then have "match_at (c # cs) = Some (b, g, rest)"
    by (cases bol) simp_all
  from match_at_shorter[OF this]
  show "((False, rest), (bol, c # cs)) \<in> measure (\<lambda>(bol, s). length s)" by simp
next
  fix bol :: bool and c :: char and cs :: string
  assume "(if bol then match_at (c # cs) else None) = None"
  show "((c = newline, cs), (bol, c # cs)) \<in> measure (\<lambda>(bol, s). length s)" by simp
qed

definition findall :: "string \<Rightarrow> (string \<times> string) list" where
  "findall text = findall_from True text"

section \<open>The estimator: \<^verbatim>\<open>find_osc_period\<close>\<close>

text \<open>
  The library calls are modelled by what they compute, in exact arithmetic (the
  choice of the bin under the rounding of doubles is treated with \<open>find_osc_period_with\<close>
  below): \<^verbatim>\<open>signal.detrend\<close> with
  \<^verbatim>\<open>type='constant'\<close> subtracts the mean, \<^verbatim>\<open>rfft\<close> is the discrete Fourier transform
  of a real series at the bins \<open>0\<close> to \<open>n div 2\<close> and rejects the empty series,
  \<^verbatim>\<open>rfftfreq(n, d)\<close> is the list of \<open>k * (1.0 / (n * d))\<close> for the same bins, and
  \<^verbatim>\<open>numpy.argmax\<close> is the first index of a largest entry.
\<close>

definition SAMPLING_RATE :: real where
  "SAMPLING_RATE = 10"

definition mean :: "real list \<Rightarrow> real" where
  "mean xs = sum_list xs / real (length xs)"

definition detrend :: "real list \<Rightarrow> real list" where
  "detrend data = map (\<lambda>x. x - mean data) data"

definition dft_bin :: "real list \<Rightarrow> nat \<Rightarrow> complex" where
  "dft_bin xs k =
     (\<Sum>m\<leftarrow>[0..<length xs].
        of_real (xs ! m) * cis (- (2 * pi * real k * real m / real (length xs))))"

definition rfft :: "real list \<Rightarrow> py_error + complex list" where
  "rfft xs =
     (if xs = [] then Inl ValueError
      else Inr (map (dft_bin xs) [0..<length xs div 2 + 1]))"

definition rfftfreq :: "nat \<Rightarrow> real \<Rightarrow> py_error + real list" where
  "rfftfreq n d =
     (if real n * d = 0 then Inl ZeroDivisionError
      else Inr (map (\<lambda>k. real k * (1 / (real n * d))) [0..<n div 2 + 1]))"

text \<open>
  \<open>argmax_from i bi bv xs\<close>: \<open>xs\<close> starts at index \<open>i\<close>, the best entry so far is \<open>bv\<close> at
  index \<open>bi\<close>; only a strictly larger entry replaces it.
\<close>

fun argmax_from :: "nat \<Rightarrow> nat \<Rightarrow> real \<Rightarrow> real list \<Rightarrow> nat" where
  "argmax_from i bi bv [] = bi"
| "argmax_from i bi bv (x # xs) =
     (if bv < x then argmax_from (Suc i) i x xs else argmax_from (Suc i) bi bv xs)"

definition argmax :: "real list \<Rightarrow> py_error + nat" where
  "argmax xs = (case xs of [] \<Rightarrow> Inl ValueError | x # xs' \<Rightarrow> Inr (argmax_from 1 0 x xs'))"

definition find_osc_period :: "real list \<Rightarrow> real \<Rightarrow> py_error + real" where
  "find_osc_period data sampling_rate =
     (let data' = detrend data in
      if sampling_rate = 0 then Inl ZeroDivisionError
      else
        let sampling_period = 1 / sampling_rate in
        case rfft data' of
          Inl e \<Rightarrow> Inl e
        | Inr yf \<Rightarrow>
            (case rfftfreq (length data') sampling_period of
               Inl e \<Rightarrow> Inl e
             | Inr xf \<Rightarrow>
                 (case argmax (map cmod yf) of
                    Inl e \<Rightarrow> Inl e
                  | Inr idx \<Rightarrow> if idx < length xf then Inr (xf ! idx) else Inl IndexError)))"

section \<open>The parser: \<^verbatim>\<open>process_sessions\<close>\<close>

text \<open>The inner loop: the field in front of the first comma of every entry, as an integer.\<close>

fun collect_data :: "string list \<Rightarrow> int list \<Rightarrow> py_error + int list" where
  "collect_data [] data = Inr data"
| "collect_data (entry # rest) data =
     (case split_on comma entry of
        [] \<Rightarrow> Inl IndexError
      | field # _ \<Rightarrow>
          (case py_int field of
             None \<Rightarrow> Inl ValueError
           | Some dp \<Rightarrow> collect_data rest (data @ [dp])))"

text \<open>\<^verbatim>\<open>filter(None, map(str.strip, session.split('\n')))\<close>\<close>

definition session_data :: "string \<Rightarrow> string list" where
  "session_data session = filter (\<lambda>s. s \<noteq> []) (map str_strip (split_on newline session))"

text \<open>The body of the outer loop, for one pair \<^verbatim>\<open>(session, gain)\<close> of the match list.\<close>

definition process_session :: "string \<times> string \<Rightarrow> py_error + (pyfloat \<times> real)" where
  "process_session sg =
     (case sg of (session, gain) \<Rightarrow>
        (case py_float gain of
           None \<Rightarrow> Inl ValueError
         | Some g \<Rightarrow>
             (case collect_data (session_data session) [] of
                Inl e \<Rightarrow> Inl e
              | Inr data \<Rightarrow>
                  (case find_osc_period (map real_of_int data) SAMPLING_RATE of
                     Inl e \<Rightarrow> Inl e
                   | Inr period \<Rightarrow> Inr (fdiv g 1000, period)))))"

type_synonym sid_dict = "int \<rightharpoonup> pyfloat \<times> real"

text \<open>\<^verbatim>\<open>sessions[sid]\<close>: a negative index counts from the end.\<close>

definition py_index :: "'a list \<Rightarrow> int \<Rightarrow> py_error + 'a" where
  "py_index xs i =
     (if 0 \<le> i \<and> i < int (length xs) then Inr (xs ! nat i)
      else if i < 0 \<and> - int (length xs) \<le> i then Inr (xs ! nat (int (length xs) + i))
      else Inl IndexError)"

fun sessions_loop ::
  "(string \<times> string) list \<Rightarrow> int list \<Rightarrow> sid_dict \<Rightarrow> py_error + sid_dict" where
  "sessions_loop sessions [] sid_dict = Inr sid_dict"
| "sessions_loop sessions (sid # sids) sid_dict =
     (case py_index sessions sid of
        Inl e \<Rightarrow> Inl e
      | Inr sg \<Rightarrow>
          (case process_session sg of
             Inl e \<Rightarrow> Inl e
           | Inr gp \<Rightarrow> sessions_loop sessions sids (sid_dict(sid + 1 \<mapsto> gp))))"

text \<open>
  \<^verbatim>\<open>range(len(sessions) - n_last, len(sessions))\<close> is \<open>[k - n_last..k - 1]\<close>, walked in
  reverse.
\<close>

definition process_sessions :: "string \<Rightarrow> int \<Rightarrow> py_error + sid_dict" where
  "process_sessions text n_last =
     (let sessions = findall text;
          k = int (length sessions)
      in if \<not> n_last \<le> k then Inl AssertionError
         else sessions_loop sessions (rev [k - n_last..k - 1]) Map.empty)"

section \<open>Properties of the estimator\<close>

text \<open>The spectrum in the words of the specification, for the statements below.\<close>

definition spectrum_magnitude :: "real list \<Rightarrow> nat \<Rightarrow> real" where
  "spectrum_magnitude samples k =
     cmod (\<Sum>m<length samples.
             of_real (samples ! m - sum_list samples / real (length samples)) *
             cis (- (2 * pi * real k * real m / real (length samples))))"

definition bin_frequency :: "nat \<Rightarrow> real \<Rightarrow> nat \<Rightarrow> real" where
  "bin_frequency n sampling_rate k = real k / (real n * (1 / sampling_rate))"

lemma argmax_from_first_max:
  assumes "bi < length pre"
    and "\<forall>m<length pre. pre ! m \<le> pre ! bi"
    and "\<forall>m<bi. pre ! m < pre ! bi"
  shows "argmax_from (length pre) bi (pre ! bi) xs < length (pre @ xs) \<and>
         (\<forall>m<length (pre @ xs). (pre @ xs) ! m \<le> (pre @ xs) ! argmax_from (length pre) bi (pre ! bi) xs) \<and>
         (\<forall>m<argmax_from (length pre) bi (pre ! bi) xs. (pre @ xs) ! m < (pre @ xs) ! argmax_from (length pre) bi (pre ! bi) xs)"
  using assms
proof (induction xs arbitrary: pre bi)
  case Nil
  then show ?case by simp
next
  case (Cons x xs)
  let ?pre = "pre @ [x]"
  show ?case
  proof (cases "pre ! bi < x")
    case True
    have a: "length pre < length ?pre" by simp
    have b: "\<forall>m<length ?pre. ?pre ! m \<le> ?pre ! length pre"
      using Cons.prems True by (auto simp: nth_append less_Suc_eq)
    have c: "\<forall>m<length pre. ?pre ! m < ?pre ! length pre"
      using Cons.prems True by (auto simp: nth_append)
    from Cons.IH[OF a b c] True show ?thesis by simp
  next
    case False
    have a: "bi < length ?pre" using Cons.prems by simp
    have b: "\<forall>m<length ?pre. ?pre ! m \<le> ?pre ! bi"
      using Cons.prems False by (auto simp: nth_append less_Suc_eq)
    have c: "\<forall>m<bi. ?pre ! m < ?pre ! bi"
      using Cons.prems by (auto simp: nth_append)
    from Cons.IH[OF a b c] False Cons.prems(1) show ?thesis by (simp add: nth_append)
  qed
qed

lemma argmax_first_max:
  assumes "xs \<noteq> []"
  shows "\<exists>idx. argmax xs = Inr idx \<and> idx < length xs \<and>
          (\<forall>m<length xs. xs ! m \<le> xs ! idx) \<and> (\<forall>m<idx. xs ! m < xs ! idx)"
proof -
  from assms obtain x xs' where xs: "xs = x # xs'" by (cases xs) auto
  have "argmax_from (length [x]) 0 ([x] ! 0) xs' < length ([x] @ xs') \<and>
         (\<forall>m<length ([x] @ xs'). ([x] @ xs') ! m \<le> ([x] @ xs') ! argmax_from (length [x]) 0 ([x] ! 0) xs') \<and>
         (\<forall>m<argmax_from (length [x]) 0 ([x] ! 0) xs'. ([x] @ xs') ! m < ([x] @ xs') ! argmax_from (length [x]) 0 ([x] ! 0) xs')"
    by (rule argmax_from_first_max) auto
  then show ?thesis by (simp add: xs argmax_def)
qed

lemma find_osc_period_value:
  assumes "data \<noteq> []" "r \<noteq> 0"
  shows "\<exists>idx. find_osc_period data r = Inr (real idx * (1 / (real (length data) * (1 / r)))) \<and>
           idx \<le> length data div 2 \<and>
           (\<forall>k\<le>length data div 2. cmod (dft_bin (detrend data) k) \<le> cmod (dft_bin (detrend data) idx)) \<and>
           (\<forall>k<idx. cmod (dft_bin (detrend data) k) < cmod (dft_bin (detrend data) idx))"
proof -
  let ?n = "length data"
  let ?mags = "map cmod (map (dft_bin (detrend data)) [0..<?n div 2 + 1])"
  have ne: "?mags \<noteq> []" by simp
  from argmax_first_max[OF ne] obtain idx where
    am: "argmax ?mags = Inr idx" and lt: "idx < length ?mags"
    and mx: "\<forall>m<length ?mags. ?mags ! m \<le> ?mags ! idx"
    and fst: "\<forall>m<idx. ?mags ! m < ?mags ! idx" by blast
  have len: "length (detrend data) = ?n" by (simp add: detrend_def)
  have dne: "detrend data \<noteq> []" using assms by (simp add: detrend_def)
  have n0: "real ?n * (1 / r) \<noteq> 0" using assms by simp
  have val: "find_osc_period data r = Inr (real idx * (1 / (real ?n * (1 / r))))"
    using am lt n0 assms dne
    by (simp add: find_osc_period_def Let_def rfft_def rfftfreq_def len del: upt_Suc)
  have idx_le: "idx \<le> ?n div 2" using lt by simp
  have m1: "\<forall>k\<le>?n div 2. cmod (dft_bin (detrend data) k) \<le> cmod (dft_bin (detrend data) idx)"
  proof (intro allI impI)
    fix k assume "k \<le> ?n div 2"
    then have "k < length ?mags" by simp
    with mx have "?mags ! k \<le> ?mags ! idx" by blast
    then show "cmod (dft_bin (detrend data) k) \<le> cmod (dft_bin (detrend data) idx)"
      using \<open>k \<le> ?n div 2\<close> idx_le by (simp del: upt_Suc add: nth_map_upt)
  qed
  have m2: "\<forall>k<idx. cmod (dft_bin (detrend data) k) < cmod (dft_bin (detrend data) idx)"
  proof (intro allI impI)
    fix k assume "k < idx"
    with fst have "?mags ! k < ?mags ! idx" by blast
    then show "cmod (dft_bin (detrend data) k) < cmod (dft_bin (detrend data) idx)"
      using \<open>k < idx\<close> idx_le by (simp del: upt_Suc add: nth_map_upt)
  qed
  from val idx_le m1 m2 show ?thesis by blast
qed


lemma cmod_dft_detrend: "cmod (dft_bin (detrend data) k) = spectrum_magnitude data k"
proof -
  have "(\<Sum>m\<leftarrow>[0..<length data].
            complex_of_real (detrend data ! m) *
            cis (- (2 * pi * real k * real m / real (length data)))) =
        (\<Sum>m<length data.
            complex_of_real (data ! m - sum_list data / real (length data)) *
            cis (- (2 * pi * real k * real m / real (length data))))"
    unfolding interv_sum_list_conv_sum_set_nat
    by (rule sum.cong) (auto simp: detrend_def mean_def)
  then show ?thesis
    by (simp add: dft_bin_def spectrum_magnitude_def detrend_def)
qed

lemma cis_minus_pi: "cis (- pi) = - 1"
  by (simp add: complex_eq_iff)

lemmas estimator_defs =
  find_osc_period_def detrend_def mean_def rfft_def rfftfreq_def dft_bin_def argmax_def

lemma find_osc_period_1_2: "find_osc_period [1, 2] 10 = Inr 5"
  by (simp add: estimator_defs cis_minus_pi)

text \<open>
  Which bin is the largest is decided on the magnitudes as the library computes them,
  in double precision, and rounding can change that choice. For the statements about
  the choice the numeric routines are therefore a parameter, the kernel:
  \<^verbatim>\<open>signal.detrend\<close> with \<^verbatim>\<open>type='constant'\<close> (which also converts the samples to doubles),
  \<^verbatim>\<open>rfft\<close> on a series that is not empty, and \<^verbatim>\<open>abs\<close> of a complex number.
  \<open>find_osc_period_with\<close> is the function of the source over such a kernel,
  \<open>exact_kernel\<close> is the kernel of exact arithmetic, and \<open>find_osc_period\<close> above is the
  function over that kernel. \<open>kernel_shape\<close> is what the library documents of the
  lengths: detrending keeps the length, the transform of \<open>n\<close> samples has \<open>n div 2 + 1\<close>
  bins.
\<close>

record 'a kernel =
  detrend_k :: "'a list \<Rightarrow> real list"
  rfft_k :: "real list \<Rightarrow> complex list"
  abs_k :: "complex \<Rightarrow> real"

definition find_osc_period_with :: "'a kernel \<Rightarrow> 'a list \<Rightarrow> real \<Rightarrow> py_error + real" where
  "find_osc_period_with K data sampling_rate =
     (let data' = detrend_k K data in
      if sampling_rate = 0 then Inl ZeroDivisionError
      else
        let sampling_period = 1 / sampling_rate in
        case (if data' = [] then Inl ValueError else Inr (rfft_k K data')) of
          Inl e \<Rightarrow> Inl e
        | Inr yf \<Rightarrow>
            (case rfftfreq (length data') sampling_period of
               Inl e \<Rightarrow> Inl e
             | Inr xf \<Rightarrow>
                 (case argmax (map (abs_k K) yf) of
                    Inl e \<Rightarrow> Inl e
                  | Inr idx \<Rightarrow> if idx < length xf then Inr (xf ! idx) else Inl IndexError)))"

definition exact_kernel :: "real kernel" where
  "exact_kernel =
     \<lparr>detrend_k = detrend,
      rfft_k = (\<lambda>xs. map (dft_bin xs) [0..<length xs div 2 + 1]),
      abs_k = cmod\<rparr>"

definition kernel_shape :: "'a kernel \<Rightarrow> bool" where
  "kernel_shape K =
     ((\<forall>xs. length (detrend_k K xs) = length xs) \<and>
      (\<forall>ys. ys \<noteq> [] \<longrightarrow> length (rfft_k K ys) = length ys div 2 + 1))"

definition computed_magnitude :: "'a kernel \<Rightarrow> 'a list \<Rightarrow> nat \<Rightarrow> real" where
  "computed_magnitude K samples k = abs_k K (rfft_k K (detrend_k K samples) ! k)"

lemma exact_kernel_simps:
  "detrend_k exact_kernel = detrend"
  "rfft_k exact_kernel xs = map (dft_bin xs) [0..<length xs div 2 + 1]"
  "abs_k exact_kernel = cmod"
  by (simp_all add: exact_kernel_def)

lemma find_osc_period_with_exact:
  "find_osc_period_with exact_kernel data r = find_osc_period data r"
  unfolding find_osc_period_with_def find_osc_period_def rfft_def Let_def exact_kernel_simps
  by (rule refl)

lemma kernel_shape_exact: "kernel_shape exact_kernel"
  unfolding kernel_shape_def exact_kernel_simps by (simp add: detrend_def)

lemma find_osc_period_with_value:
  assumes "data \<noteq> []" "r \<noteq> 0" "kernel_shape K"
  shows "\<exists>idx. find_osc_period_with K data r = Inr (real idx * (1 / (real (length data) * (1 / r)))) \<and>
           idx \<le> length data div 2 \<and>
           (\<forall>k\<le>length data div 2. computed_magnitude K data k \<le> computed_magnitude K data idx) \<and>
           (\<forall>k<idx. computed_magnitude K data k < computed_magnitude K data idx)"
proof -
  let ?n = "length data"
  let ?yf = "rfft_k K (detrend_k K data)"
  let ?mags = "map (abs_k K) ?yf"
  from assms(3) have len: "length (detrend_k K data) = ?n"
    by (simp add: kernel_shape_def)
  with assms(1) have dne: "detrend_k K data \<noteq> []" by auto
  with assms(3) len have ylen: "length ?yf = ?n div 2 + 1"
    by (simp add: kernel_shape_def)
  then have ne: "?mags \<noteq> []" by auto
  from argmax_first_max[OF ne] obtain idx where
    am: "argmax ?mags = Inr idx" and lt: "idx < length ?mags"
    and mx: "\<forall>m<length ?mags. ?mags ! m \<le> ?mags ! idx"
    and fst: "\<forall>m<idx. ?mags ! m < ?mags ! idx" by blast
  have n0: "real ?n * (1 / r) \<noteq> 0" using assms by simp
  from lt ylen have idx_le: "idx \<le> ?n div 2" by simp
  have val: "find_osc_period_with K data r = Inr (real idx * (1 / (real ?n * (1 / r))))"
    using am idx_le n0 assms(2) dne
    by (simp add: find_osc_period_with_def Let_def rfftfreq_def len del: upt_Suc)
  have m1: "\<forall>k\<le>?n div 2. computed_magnitude K data k \<le> computed_magnitude K data idx"
  proof (intro allI impI)
    fix k assume k: "k \<le> ?n div 2"
    with ylen have "k < length ?mags" by simp
    with mx have "?mags ! k \<le> ?mags ! idx" by blast
    then show "computed_magnitude K data k \<le> computed_magnitude K data idx"
      using k idx_le ylen by (simp add: computed_magnitude_def)
  qed
  have m2: "\<forall>k<idx. computed_magnitude K data k < computed_magnitude K data idx"
  proof (intro allI impI)
    fix k assume k: "k < idx"
    with fst have "?mags ! k < ?mags ! idx" by blast
    then show "computed_magnitude K data k < computed_magnitude K data idx"
      using k idx_le ylen by (simp add: computed_magnitude_def)
  qed
  from val idx_le m1 m2 show ?thesis by blast
qed

lemma computed_magnitude_exact:
  assumes "k \<le> length samples div 2"
  shows "computed_magnitude exact_kernel samples k = spectrum_magnitude samples k"
proof -
  have len: "length (detrend samples) = length samples" by (simp add: detrend_def)
  have "map (dft_bin (detrend samples)) [0..<length (detrend samples) div 2 + 1] ! k =
        dft_bin (detrend samples) k"
    using assms len by (simp del: upt_Suc add: nth_map_upt)
  then show ?thesis
    unfolding computed_magnitude_def exact_kernel_simps by (simp only: cmod_dft_detrend)
qed

text \<open>
  C2. For a non-empty series and a positive sampling rate, whatever the rounding of
  the library's routines (any kernel of the documented shape), the function of the
  source detrends the series, transforms it over the bins \<open>0\<close> to \<open>n div 2\<close>, takes the
  magnitudes, selects the bin whose computed magnitude is largest, the lowest index
  where several are largest, and returns that bin's frequency
  \<open>k / (n * (1 / sampling_rate))\<close>, not its reciprocal. In exact arithmetic the magnitudes
  are those of the discrete Fourier transform of the series minus its arithmetic mean.
\<close>

theorem find_osc_period_first_peak:
  assumes "samples \<noteq> []" and "0 < sampling_rate" and "kernel_shape K"
  shows "(\<exists>idx. idx \<le> length samples div 2 \<and>
           (\<forall>k\<le>length samples div 2.
              computed_magnitude K samples k \<le> computed_magnitude K samples idx) \<and>
           (\<forall>k<idx. computed_magnitude K samples k < computed_magnitude K samples idx) \<and>
           find_osc_period_with K samples sampling_rate =
             Inr (bin_frequency (length samples) sampling_rate idx)) \<and>
         (\<forall>k\<le>length t div 2.
            computed_magnitude exact_kernel t k = spectrum_magnitude t k)"
proof -
  from assms have "sampling_rate \<noteq> 0" by simp
  from find_osc_period_with_value[OF assms(1) this assms(3)]
  have "\<exists>idx. idx \<le> length samples div 2 \<and>
           (\<forall>k\<le>length samples div 2.
              computed_magnitude K samples k \<le> computed_magnitude K samples idx) \<and>
           (\<forall>k<idx. computed_magnitude K samples k < computed_magnitude K samples idx) \<and>
           find_osc_period_with K samples sampling_rate =
             Inr (bin_frequency (length samples) sampling_rate idx)"
    unfolding bin_frequency_def by (auto simp: field_simps)
  then show ?thesis by (simp add: computed_magnitude_exact)
qed

theorem find_osc_period_first_peak_witness:
  "kernel_shape exact_kernel \<and>
   (\<exists>idx. idx \<le> length [3, 4 :: real] div 2 \<and>
     (\<forall>k\<le>length [3, 4 :: real] div 2.
        computed_magnitude exact_kernel [3, 4] k \<le> computed_magnitude exact_kernel [3, 4] idx) \<and>
     (\<forall>k<idx. computed_magnitude exact_kernel [3, 4] k < computed_magnitude exact_kernel [3, 4] idx) \<and>
     find_osc_period_with exact_kernel [3, 4] 10 = Inr (bin_frequency (length [3, 4 :: real]) 10 idx))"
  using find_osc_period_first_peak [of "[3, 4]" 10 exact_kernel "[]"] kernel_shape_exact by simp

text \<open>
  C10. For a series of one sample and a positive sampling rate, \<open>find_osc_period\<close>
  succeeds and returns \<open>0\<close>: the detrended sample is zero, the half spectrum has the
  one bin at frequency zero.
\<close>

theorem find_osc_period_single_sample:
  "0 < sampling_rate \<Longrightarrow> find_osc_period [x] sampling_rate = Inr 0"
  by (simp add: estimator_defs)

theorem find_osc_period_single_sample_witness:
  "find_osc_period [7] 10 = Inr 0"
  using find_osc_period_single_sample [of 10 7] by simp

text \<open>
  C7. The claim: \<open>find_osc_period\<close> fails on an empty series and on a sampling rate
  that is zero or negative. A negative rate is not rejected: the series \<open>[0, 1]\<close> at
  the rate \<open>- 10\<close> yields the value \<open>- 5\<close>.
\<close>

theorem find_osc_period_negative_rate_returns:
  "find_osc_period [0, 1] (- 10) = Inr (- 5)"
  by (simp add: estimator_defs cis_minus_pi)

text \<open>
  C7, amended. \<open>find_osc_period\<close> fails with \<^verbatim>\<open>ZeroDivisionError\<close> when the sampling
  rate is zero and with \<^verbatim>\<open>ValueError\<close> when the series is empty (and the rate is not
  zero); no value is produced then. For a non-empty series and a negative rate it
  returns a value, which is not positive.
\<close>

theorem find_osc_period_failures:
  "(sampling_rate = 0 \<longrightarrow> find_osc_period data sampling_rate = Inl ZeroDivisionError) \<and>
   (data = [] \<and> sampling_rate \<noteq> 0 \<longrightarrow> find_osc_period data sampling_rate = Inl ValueError) \<and>
   (data \<noteq> [] \<and> sampling_rate < 0 \<longrightarrow>
      (\<exists>f. f \<le> 0 \<and> find_osc_period data sampling_rate = Inr f))"
proof (intro conjI impI)
  assume "sampling_rate = 0"
  then show "find_osc_period data sampling_rate = Inl ZeroDivisionError"
    by (simp add: find_osc_period_def)
next
  assume "data = [] \<and> sampling_rate \<noteq> 0"
  then show "find_osc_period data sampling_rate = Inl ValueError"
    by (simp add: find_osc_period_def detrend_def rfft_def)
next
  assume a: "data \<noteq> [] \<and> sampling_rate < 0"
  then have "sampling_rate \<noteq> 0" by simp
  with a find_osc_period_value[of data sampling_rate] obtain idx where
    "find_osc_period data sampling_rate =
       Inr (real idx * (1 / (real (length data) * (1 / sampling_rate))))"
    by blast
  moreover have "real idx * (1 / (real (length data) * (1 / sampling_rate))) \<le> 0"
    using a by (simp add: field_simps mult_le_0_iff)
  ultimately show "\<exists>f. f \<le> 0 \<and> find_osc_period data sampling_rate = Inr f"
    by blast
qed

theorem find_osc_period_failures_witness:
  "find_osc_period [1, 2] 0 = Inl ZeroDivisionError \<and>
   find_osc_period [] 10 = Inl ValueError \<and>
   (\<exists>f. f \<le> 0 \<and> find_osc_period [5] (- 10) = Inr f)"
  using find_osc_period_failures [of 0 "[1, 2]"] find_osc_period_failures [of 10 "[]"]
    find_osc_period_failures [of "- 10" "[5]"]
  by simp

text \<open>
  The conversion of an int64 sample to a double: the nearest multiple of \<open>2 ^ sh\<close>, where
  \<open>sh\<close> is the number of bits of the magnitude beyond 53, a tie going to the even
  multiple. \<open>int64_input_kernel\<close> rounds there and nowhere else: the samples are
  converted, the arithmetic after that is exact.
\<close>

definition round_int53 :: "int \<Rightarrow> int" where
  "round_int53 z =
     (let m = nat \<bar>z\<bar>;
          sh = length (filter (\<lambda>k. 2 ^ k \<le> m) [53..<64]);
          q = m div 2 ^ sh;
          rest = m mod 2 ^ sh;
          up = (0 < sh \<and> (2 ^ sh < 2 * rest \<or> (2 * rest = 2 ^ sh \<and> odd q)))
      in sgn z * int ((if up then q + 1 else q) * 2 ^ sh))"

definition int64_input_kernel :: "int kernel" where
  "int64_input_kernel =
     \<lparr>detrend_k = (\<lambda>zs. detrend (map (\<lambda>z. real_of_int (round_int53 z)) zs)),
      rfft_k = (\<lambda>xs. map (dft_bin xs) [0..<length xs div 2 + 1]),
      abs_k = cmod\<rparr>"

lemma round_int53_values:
  "round_int53 0 = 0" "round_int53 1 = 1"
  "round_int53 9007199254740992 = 9007199254740992"
  "round_int53 9007199254740993 = 9007199254740992"
  by (simp_all add: round_int53_def Let_def upt_rec)

text \<open>
  C8. The claim: adding a constant to every sample never changes the result. With the
  conversion of the samples rounded as the doubles round it, the series \<open>[0, 1]\<close> yields
  \<open>5\<close>, and the same series plus \<open>2 ^ 53\<close> yields \<open>0\<close>: both shifted samples convert to
  \<open>2 ^ 53\<close>, so the detrended series is all zero. (Every later operation on these two
  series is exact in doubles too.)
\<close>

theorem offset_changes_result:
  "find_osc_period_with int64_input_kernel [0, 1] 10 = Inr 5 \<and>
   find_osc_period_with int64_input_kernel (map (\<lambda>x. x + 2 ^ 53) [0, 1]) 10 = Inr 0"
  by (simp add: find_osc_period_with_def int64_input_kernel_def round_int53_values
      detrend_def mean_def rfftfreq_def dft_bin_def argmax_def cis_minus_pi)

lemma detrend_offset:
  assumes "s \<noteq> []"
  shows "detrend (map (\<lambda>x. x + c) s) = detrend s"
proof -
  have "sum_list (map (\<lambda>x. x + c) s) = sum_list s + real (length s) * c"
    by (induction s) (simp_all add: algebra_simps)
  with assms have "mean (map (\<lambda>x. x + c) s) = mean s + c"
    by (simp add: mean_def field_simps)
  then show ?thesis by (simp add: detrend_def)
qed

text \<open>
  C8, amended. Whatever the rounding of the library's routines: when detrending the
  shifted series yields the same series as detrending the original, the result for
  the shifted series is the result for the original. In exact arithmetic detrending
  a non-empty series always cancels the offset, and the result is the same.
\<close>

theorem offset_invariance_when_detrend_cancels:
  "(detrend_k K (map (\<lambda>x. x + c) s) = detrend_k K s \<longrightarrow>
      find_osc_period_with K (map (\<lambda>x. x + c) s) r = find_osc_period_with K s r) \<and>
   (t \<noteq> [] \<longrightarrow>
      detrend_k exact_kernel (map (\<lambda>x. x + d) t) = detrend_k exact_kernel t \<and>
      find_osc_period_with exact_kernel (map (\<lambda>x. x + d) t) r =
        find_osc_period_with exact_kernel t r)"
  by (simp add: find_osc_period_with_def exact_kernel_def detrend_offset)

theorem offset_invariance_when_detrend_cancels_witness:
  "find_osc_period_with exact_kernel (map (\<lambda>x. x + 1000) [1, 2]) 10 =
     find_osc_period_with exact_kernel [1, 2] 10 \<and>
   find_osc_period_with exact_kernel [1, 2] 10 = Inr 5"
  using offset_invariance_when_detrend_cancels [of exact_kernel 1000 "[1, 2]" 10 "[1, 2]" 1000]
  by (simp add: find_osc_period_with_exact find_osc_period_1_2)

section \<open>Properties of the parser\<close>

lemma strip_with_id:
  assumes "s \<noteq> []" and "\<not> p (hd s)" and "\<not> p (last s)"
  shows "strip_with p s = s"
proof -
  from assms have a: "dropWhile p s = s" by (cases s) auto
  from assms have "\<not> p (hd (rev s))" by (simp add: hd_rev)
  with assms(1) have "dropWhile p (rev s) = rev s" by (cases "rev s") auto
  with a show ?thesis by (simp add: strip_with_def)
qed

lemma digits_val_chars:
  "digits_val acc s = Some n \<Longrightarrow> list_all (\<lambda>c. is_digit c \<or> c = CHR ''_'') s"
  by (induction acc s rule: digits_val.induct) (auto split: if_splits list.splits)

lemma digitpart_chars:
  assumes "digitpart s = Some n"
  shows "s \<noteq> []" and "is_digit (hd s)" and "list_all (\<lambda>c. is_digit c \<or> c = CHR ''_'') s"
  using assms digits_val_chars
  by (auto simp: digitpart_def split: list.splits if_splits)

lemma is_digit_simps:
  "\<not> is_digit (CHR ''e'')" "\<not> is_digit (CHR ''E'')" "\<not> is_digit (CHR ''.'')"
  "\<not> is_digit (CHR ''i'')" "\<not> is_digit (CHR ''n'')" "\<not> is_digit (CHR ''_'')"
  "\<not> is_digit (CHR ''-'')" "\<not> is_digit (CHR ''+'')"
  by (simp_all add: is_digit_def)

lemma digit_not_space: "is_digit c \<Longrightarrow> \<not> num_isspace c"
  by (auto simp: is_digit_def num_isspace_def)

lemma to_lower_digit: "is_digit c \<Longrightarrow> to_lower c = c"
  by (simp add: is_digit_def to_lower_def)

lemma digit_start_not_word:
  assumes "u \<noteq> []" and "is_digit (hd u)"
  shows "map to_lower u \<noteq> ''inf''" "map to_lower u \<noteq> ''infinity''" "map to_lower u \<noteq> ''nan''"
  using assms by (cases u; auto simp: to_lower_digit is_digit_simps)+

lemma digitpart_mantissa:
  assumes "digitpart u = Some n"
  shows "mantissa u = Some (real n)"
proof -
  from digitpart_chars(3)[OF assms] have "\<forall>c\<in>set u. c \<noteq> CHR ''.''"
    by (auto simp: list_all_iff is_digit_simps)
  then have tk: "takeWhile (\<lambda>c. c \<noteq> CHR ''.'') u = u" "dropWhile (\<lambda>c. c \<noteq> CHR ''.'') u = []"
    by (simp_all add: takeWhile_eq_all_conv)
  show ?thesis unfolding mantissa_def tk Let_def using assms by simp
qed

lemma digitpart_unsigned_float:
  assumes "digitpart u = Some n"
  shows "unsigned_float u = Some (Fin (real n))"
proof -
  from digitpart_chars(3)[OF assms] have "\<forall>c\<in>set u. \<not> is_exp_mark c"
    by (auto simp: list_all_iff is_digit_simps is_exp_mark_def)
  then have tw: "takeWhile (\<lambda>c. \<not> is_exp_mark c) u = u" "dropWhile (\<lambda>c. \<not> is_exp_mark c) u = []"
    by (simp_all add: takeWhile_eq_all_conv)
  show ?thesis unfolding unsigned_float_def tw Let_def
    using digit_start_not_word[OF digitpart_chars(1,2)[OF assms]] digitpart_mantissa[OF assms]
    by simp
qed

lemma py_int_py_float:
  assumes "py_int s = Some z"
  shows "py_float s = Some (Fin (real_of_int z))"
proof -
  let ?t = "strip_with num_isspace s"
  from assms have sd: "signed_digitpart ?t = Some z" by (simp add: py_int_def)
  then obtain c cs where t: "?t = c # cs" by (cases ?t) (auto simp: signed_digitpart_def)
  show ?thesis
  proof (cases "c = CHR ''-''")
    case True
    with sd t obtain n where "digitpart cs = Some n" "z = - int n"
      by (auto simp: signed_digitpart_def)
    with True t digitpart_unsigned_float[of cs n] show ?thesis
      by (simp add: py_float_def)
  next
    case False
    show ?thesis
    proof (cases "c = CHR ''+''")
      case True
      with sd t obtain n where "digitpart cs = Some n" "z = int n"
        by (auto simp: signed_digitpart_def)
      with True t digitpart_unsigned_float[of cs n] show ?thesis
        by (simp add: py_float_def)
    next
      case plus: False
      with False sd t obtain n where "digitpart (c # cs) = Some n" "z = int n"
        by (auto simp: signed_digitpart_def)
      with False plus t digitpart_unsigned_float[of "c # cs" n] show ?thesis
        by (simp add: py_float_def)
    qed
  qed
qed

text \<open>The value of a string of digits.\<close>

definition dec_val :: "string \<Rightarrow> nat" where
  "dec_val s = foldl (\<lambda>a c. 10 * a + digit_val c) 0 s"

lemma digits_val_all_digits:
  "list_all is_digit s \<Longrightarrow> digits_val acc s = Some (foldl (\<lambda>a c. 10 * a + digit_val c) acc s)"
  by (induction s arbitrary: acc) auto

lemma digitpart_all_digits:
  assumes "s \<noteq> []" and "list_all is_digit s"
  shows "digitpart s = Some (dec_val s)"
proof -
  from assms obtain c cs where s: "s = c # cs" by (cases s) auto
  with assms(2) have "is_digit c" "list_all is_digit cs" by auto
  then show ?thesis
    by (simp add: s digitpart_def dec_val_def digits_val_all_digits is_digit_def digit_val_def)
qed

lemma digits_val_stop:
  "list_all is_digit xs \<Longrightarrow> \<not> is_digit c \<Longrightarrow> c \<noteq> CHR ''_'' \<Longrightarrow> digits_val acc (xs @ c # ys) = None"
  by (induction xs arbitrary: acc) auto

lemma fraction_py_float:
  assumes "ip \<noteq> []" "fp \<noteq> []" "list_all is_digit ip" "list_all is_digit fp"
  shows "py_float (ip @ ''.'' @ fp) = Some (Fin (real (dec_val ip) + real (dec_val fp) / 10 ^ length fp))"
    and "py_int (ip @ ''.'' @ fp) = None"
proof -
  let ?g = "ip @ ''.'' @ fp"
  from assms obtain c cs where ip: "ip = c # cs" by (cases ip) auto
  with assms have c: "is_digit c" by simp
  have l: "is_digit (last ?g)" using assms by (simp add: list_all_iff)
  have "strip_with num_isspace ?g = ?g"
    by (rule strip_with_id) (use c l ip digit_not_space in auto)
  then have st: "strip_with num_isspace ?g = c # cs @ ''.'' @ fp" by (simp add: ip)
  have csd: "list_all is_digit cs" using assms ip by simp
  have nosign: "c \<noteq> CHR ''-''" "c \<noteq> CHR ''+''" using c is_digit_simps by auto
  have "digits_val (digit_val c) (cs @ CHR ''.'' # fp) = None"
    by (rule digits_val_stop[OF csd]) (simp_all add: is_digit_simps)
  then show "py_int ?g = None"
    using st nosign c by (simp add: py_int_def signed_digitpart_def digitpart_def)
  have noexp: "\<forall>x\<in>set ?g. \<not> is_exp_mark x"
    using assms by (auto simp: list_all_iff is_exp_mark_def is_digit_simps)
  then have tw: "takeWhile (\<lambda>c. \<not> is_exp_mark c) ?g = ?g" "dropWhile (\<lambda>c. \<not> is_exp_mark c) ?g = []"
    by (simp_all only: takeWhile_eq_all_conv dropWhile_eq_Nil_conv) 
  have nodot: "\<forall>x\<in>set ip. x \<noteq> CHR ''.''"
    using assms by (auto simp: list_all_iff is_digit_simps)
  then have tk: "takeWhile (\<lambda>c. c \<noteq> CHR ''.'') ?g = ip" "dropWhile (\<lambda>c. c \<noteq> CHR ''.'') ?g = CHR ''.'' # fp"
    by (simp_all add: takeWhile_append2 dropWhile_append2)
  have fl: "filter is_digit fp = fp" using assms by (simp add: list_all_iff)
  have man: "mantissa ?g = Some (real (dec_val ip) + real (dec_val fp) / 10 ^ length fp)"
    unfolding mantissa_def tk Let_def
    using assms by (simp add: digitpart_all_digits fl)
  have nw: "map to_lower ?g \<noteq> ''inf''" "map to_lower ?g \<noteq> ''infinity''" "map to_lower ?g \<noteq> ''nan''"
    by (rule digit_start_not_word; simp add: ip c)+
  have "unsigned_float ?g = Some (Fin (real (dec_val ip) + real (dec_val fp) / 10 ^ length fp))"
    unfolding unsigned_float_def tw Let_def using nw man by simp
  then show "py_float ?g = Some (Fin (real (dec_val ip) + real (dec_val fp) / 10 ^ length fp))"
    using st nosign by (simp add: py_float_def ip)
qed


text \<open>The log of two sessions that the specification gives as its scenario.\<close>

definition example_log :: string where
  "example_log =
     ''start\<newline>1,0\<newline>2,1\<newline>end [2000]\<newline>start\<newline>3,0\<newline>4,1\<newline>end [3000]\<newline>''"

text \<open>
  A session body is well formed when it has a line that is not blank and the field in
  front of the first comma of every such line is an integer numeral; a block is well
  formed when its body is and its gain field is a numeral of \<^verbatim>\<open>float\<close>.
\<close>

definition well_formed_body :: "string \<Rightarrow> bool" where
  "well_formed_body session =
     (session_data session \<noteq> [] \<and>
      list_all (\<lambda>entry. py_int (takeWhile (\<lambda>c. c \<noteq> comma) entry) \<noteq> None)
        (session_data session))"

definition well_formed :: "string \<times> string \<Rightarrow> bool" where
  "well_formed sg = (py_float (snd sg) \<noteq> None \<and> well_formed_body (fst sg))"

lemma findall_example_log:
  "findall example_log =
     [(''\<newline>1,0\<newline>2,1\<newline>'', ''2000''), (''\<newline>3,0\<newline>4,1\<newline>'', ''3000'')]"
  unfolding example_log_def by code_simp

lemma split_on_first: "\<exists>rest. split_on d s = takeWhile (\<lambda>c. c \<noteq> d) s # rest"
  by (induction s) (auto split: list.splits)

lemma collect_data_map:
  "collect_data entries acc =
     (if list_all (\<lambda>e. py_int (takeWhile (\<lambda>c. c \<noteq> comma) e) \<noteq> None) entries
      then Inr (acc @ map (\<lambda>e. the (py_int (takeWhile (\<lambda>c. c \<noteq> comma) e))) entries)
      else Inl ValueError)"
proof (induction entries arbitrary: acc)
  case Nil
  then show ?case by simp
next
  case (Cons e es)
  obtain rest where r: "split_on comma e = takeWhile (\<lambda>c. c \<noteq> comma) e # rest"
    using split_on_first by blast
  show ?case
    by (cases "py_int (takeWhile (\<lambda>c. c \<noteq> comma) e)") (simp_all add: r Cons.IH)
qed

lemma process_session_ok:
  assumes "py_float gain = Some g" and "well_formed_body session"
  shows "\<exists>period. process_session (session, gain) = Inr (fdiv g 1000, period)"
proof -
  let ?data = "map (\<lambda>e. the (py_int (takeWhile (\<lambda>c. c \<noteq> comma) e))) (session_data session)"
  from assms(2) have cd: "collect_data (session_data session) [] = Inr ?data"
    and ne: "?data \<noteq> []"
    by (simp_all add: well_formed_body_def collect_data_map)
  from ne have "map real_of_int ?data \<noteq> []" by simp
  from find_osc_period_value[OF this, of SAMPLING_RATE]
  obtain p where "find_osc_period (map real_of_int ?data) SAMPLING_RATE = Inr p"
    by (auto simp: SAMPLING_RATE_def)
  with assms(1) cd show ?thesis
    by (simp add: process_session_def)
qed

text \<open>What the loop records for a block, when processing it raises nothing.\<close>

definition block_result :: "string \<times> string \<Rightarrow> (pyfloat \<times> real) option" where
  "block_result sg = (case process_session sg of Inl e \<Rightarrow> None | Inr gp \<Rightarrow> Some gp)"

lemma sessions_loop_ok:
  assumes "\<forall>sid\<in>set sids. 0 \<le> sid \<and> sid < int (length ss) \<and>
             (\<exists>gp. process_session (ss ! nat sid) = Inr gp)"
  shows "\<exists>m. sessions_loop ss sids d = Inr m \<and>
           (\<forall>j. m j = (if j - 1 \<in> set sids then block_result (ss ! nat (j - 1)) else d j))"
  using assms
proof (induction sids arbitrary: d)
  case Nil
  then show ?case by simp
next
  case (Cons sid sids)
  from Cons.prems obtain gp where gp: "process_session (ss ! nat sid) = Inr gp"
    and rng: "0 \<le> sid" "sid < int (length ss)" by auto
  from Cons.prems have "\<forall>sid\<in>set sids. 0 \<le> sid \<and> sid < int (length ss) \<and>
             (\<exists>gp. process_session (ss ! nat sid) = Inr gp)" by simp
  from Cons.IH[OF this, of "d(sid + 1 \<mapsto> gp)"] obtain m where
    m: "sessions_loop ss sids (d(sid + 1 \<mapsto> gp)) = Inr m"
    and look: "\<forall>j. m j = (if j - 1 \<in> set sids then block_result (ss ! nat (j - 1))
                          else (d(sid + 1 \<mapsto> gp)) j)" by blast
  have "sessions_loop ss (sid # sids) d = Inr m"
    using gp rng m by (simp add: py_index_def)
  moreover have "\<forall>j. m j = (if j - 1 \<in> set (sid # sids) then block_result (ss ! nat (j - 1)) else d j)"
    using look gp by (auto simp: block_result_def)
  ultimately show ?case by blast
qed

lemma sessions_loop_lookup:
  assumes "sessions_loop ss sids d = Inr m" and "m j = Some gp"
    and "\<forall>sid\<in>set sids. 0 \<le> sid \<and> sid < int (length ss)"
  shows "d j = Some gp \<or> (j - 1 \<in> set sids \<and> process_session (ss ! nat (j - 1)) = Inr gp)"
  using assms
proof (induction sids arbitrary: d)
  case Nil
  then show ?case by simp
next
  case (Cons sid sids)
  from Cons.prems(3) have rng: "0 \<le> sid" "sid < int (length ss)" by auto
  from Cons.prems(1) rng obtain gp' where gp': "process_session (ss ! nat sid) = Inr gp'"
    and l: "sessions_loop ss sids (d(sid + 1 \<mapsto> gp')) = Inr m"
    by (auto simp: py_index_def split: sum.splits)
  from Cons.prems(3) have "\<forall>sid\<in>set sids. 0 \<le> sid \<and> sid < int (length ss)" by simp
  from Cons.IH[OF l Cons.prems(2) this]
  show ?case using gp' by (auto split: if_splits)
qed


lemma wfb_34: "well_formed_body ''\<newline>3,0\<newline>4,1\<newline>''"
  by code_simp

lemma py_int_3000: "py_int ''3000'' = Some 3000"
  by code_simp


lemma process_sessions_ok:
  assumes "0 \<le> n" and "n \<le> int (length (findall text))"
    and "\<forall>i. int (length (findall text)) - n \<le> i \<and> i < int (length (findall text)) \<longrightarrow>
           (\<exists>gp. process_session (findall text ! nat i) = Inr gp)"
  shows "\<exists>m. process_sessions text n = Inr m \<and>
           (\<forall>j. m j = (if int (length (findall text)) - n < j \<and> j \<le> int (length (findall text))
                        then block_result (findall text ! nat (j - 1)) else None))"
proof -
  let ?ss = "findall text"
  let ?k = "int (length ?ss)"
  let ?sids = "rev [?k - n..?k - 1]"
  have "\<forall>sid\<in>set ?sids. 0 \<le> sid \<and> sid < int (length ?ss) \<and>
          (\<exists>gp. process_session (?ss ! nat sid) = Inr gp)"
    using assms by auto
  from sessions_loop_ok[OF this, of Map.empty] obtain m where
    m: "sessions_loop ?ss ?sids Map.empty = Inr m"
    and look: "\<forall>j. m j = (if j - 1 \<in> set ?sids then block_result (?ss ! nat (j - 1)) else None)"
    by auto
  have "process_sessions text n = Inr m"
    using m assms(2) by (simp add: process_sessions_def Let_def)
  moreover have "\<forall>j. m j = (if ?k - n < j \<and> j \<le> ?k then block_result (?ss ! nat (j - 1)) else None)"
  proof
    fix j
    have "j - 1 \<in> set ?sids \<longleftrightarrow> ?k - n < j \<and> j \<le> ?k" by auto
    with look show "m j = (if ?k - n < j \<and> j \<le> ?k then block_result (?ss ! nat (j - 1)) else None)"
      by simp
  qed
  ultimately show ?thesis by blast
qed

lemma process_sessions_lookup:
  assumes "process_sessions text n = Inr m" and "m j = Some gp"
  shows "int (length (findall text)) - n < j \<and> j \<le> int (length (findall text)) \<and>
         process_session (findall text ! nat (j - 1)) = Inr gp"
proof -
  let ?ss = "findall text"
  let ?k = "int (length ?ss)"
  let ?sids = "rev [?k - n..?k - 1]"
  from assms(1) have nk: "n \<le> ?k" and l: "sessions_loop ?ss ?sids Map.empty = Inr m"
    by (auto simp: process_sessions_def Let_def split: if_splits)
  from nk have "\<forall>sid\<in>set ?sids. 0 \<le> sid \<and> sid < int (length ?ss)" by auto
  from sessions_loop_lookup[OF l assms(2) this]
  have "j - 1 \<in> set ?sids" and "process_session (?ss ! nat (j - 1)) = Inr gp" by auto
  then show ?thesis by auto
qed

text \<open>
  C1. When block discovery finds \<open>k\<close> blocks, \<open>0 \<le> n \<le> k\<close> and the last \<open>n\<close> blocks are
  well formed, \<open>process_sessions\<close> returns a mapping with exactly \<open>n\<close> entries, its keys
  the last \<open>n\<close> integers of \<open>1..k\<close>; the entry at key \<open>i + 1\<close> is the result for the block at
  position \<open>i\<close> (counted from zero) among all \<open>k\<close> blocks, so a key is the position in the
  whole match list, not in the trailing part.
\<close>

theorem process_sessions_trailing_ids:
  assumes "blocks = findall text" and "k = int (length blocks)"
    and "0 \<le> n" and "n \<le> k"
    and "\<forall>i. k - n \<le> i \<and> i < k \<longrightarrow> well_formed (blocks ! nat i)"
  shows "\<exists>m. process_sessions text n = Inr m \<and>
           dom m = {k - n + 1..k} \<and> card (dom m) = nat n \<and>
           (\<forall>i. k - n \<le> i \<and> i < k \<longrightarrow> process_session (blocks ! nat i) = Inr (the (m (i + 1))))"
proof -
  have ok: "\<forall>i. k - n \<le> i \<and> i < k \<longrightarrow> (\<exists>gp. process_session (blocks ! nat i) = Inr gp)"
  proof (intro allI impI)
    fix i assume "k - n \<le> i \<and> i < k"
    with assms(5) have wf: "well_formed (blocks ! nat i)" by blast
    obtain session gain where sg: "blocks ! nat i = (session, gain)" by (cases "blocks ! nat i")
    from wf sg obtain g where "py_float gain = Some g" "well_formed_body session"
      by (auto simp: well_formed_def)
    from process_session_ok[OF this] sg show "\<exists>gp. process_session (blocks ! nat i) = Inr gp"
      by auto
  qed
  from process_sessions_ok[of n "text"] ok assms(1-4) obtain m where
    m: "process_sessions text n = Inr m"
    and look: "\<forall>j. m j = (if k - n < j \<and> j \<le> k then block_result (blocks ! nat (j - 1)) else None)"
    by auto
  have val: "\<forall>i. k - n \<le> i \<and> i < k \<longrightarrow> process_session (blocks ! nat i) = Inr (the (m (i + 1)))"
  proof (intro allI impI)
    fix i assume i: "k - n \<le> i \<and> i < k"
    with ok obtain gp where gp: "process_session (blocks ! nat i) = Inr gp" by blast
    from i look have "m (i + 1) = block_result (blocks ! nat i)" by simp
    with gp show "process_session (blocks ! nat i) = Inr (the (m (i + 1)))"
      by (simp add: block_result_def)
  qed
  have "dom m = {k - n + 1..k}"
  proof (rule set_eqI)
    fix j
    show "j \<in> dom m \<longleftrightarrow> j \<in> {k - n + 1..k}"
    proof (cases "k - n < j \<and> j \<le> k")
      case True
      then have "k - n \<le> j - 1 \<and> j - 1 < k" by simp
      with ok obtain gp where "process_session (blocks ! nat (j - 1)) = Inr gp" by blast
      with True look have "m j = Some gp" by (simp add: block_result_def)
      with True show ?thesis by auto
    next
      case False
      with look have "m j = None" by auto
      with False show ?thesis by auto
    qed
  qed
  moreover from this assms(3) have "card (dom m) = nat n" by simp
  ultimately show ?thesis using m val by blast
qed

lemma py_float_3000: "py_float ''3000'' = Some (Fin 3000)"
  using py_int_py_float[OF py_int_3000] by simp

lemma wf_34: "well_formed (''\<newline>3,0\<newline>4,1\<newline>'', ''3000'')"
  by (simp add: well_formed_def wfb_34 py_float_3000)

theorem process_sessions_trailing_ids_witness:
  "\<exists>m. process_sessions example_log 1 = Inr m \<and> dom m = {2} \<and> card (dom m) = 1 \<and>
     process_session (findall example_log ! 1) = Inr (the (m 2))"
proof -
  have wf: "\<forall>i. (2::int) - 1 \<le> i \<and> i < 2 \<longrightarrow> well_formed (findall example_log ! nat i)"
  proof (intro allI impI)
    fix i :: int assume "2 - 1 \<le> i \<and> i < 2"
    then have "i = 1" by simp
    then show "well_formed (findall example_log ! nat i)"
      by (simp add: findall_example_log wf_34)
  qed
  have k: "(2::int) = int (length (findall example_log))" by (simp add: findall_example_log)
  from process_sessions_trailing_ids[OF refl k _ _ wf]
  obtain m where "process_sessions example_log 1 = Inr m" "dom m = {2 - 1 + 1..2}"
    "card (dom m) = nat 1"
    "\<forall>i. 2 - 1 \<le> i \<and> i < 2 \<longrightarrow> process_session (findall example_log ! nat i) = Inr (the (m (i + 1)))"
    by auto
  then show ?thesis by (intro exI[of _ m]) (auto dest: spec[of _ 1])
qed

text \<open>
  C3. When block discovery finds \<open>k\<close> blocks and \<open>n > k\<close>, \<open>process_sessions\<close> fails with the
  \<^verbatim>\<open>AssertionError\<close> of its \<^verbatim>\<open>assert\<close>; nothing is processed and no mapping is returned.
\<close>

theorem process_sessions_insufficient:
  "int (length (findall text)) < n \<Longrightarrow> process_sessions text n = Inl AssertionError"
  by (simp add: process_sessions_def Let_def)

theorem process_sessions_insufficient_witness:
  "process_sessions example_log 3 = Inl AssertionError"
  using process_sessions_insufficient [of example_log 3] by (simp add: findall_example_log)

text \<open>One session with the gain field \<^verbatim>\<open>[1500]\<close>, and one with \<^verbatim>\<open>[1.5]\<close>.\<close>

definition gain_log :: string where
  "gain_log = ''start\<newline>1,0\<newline>2,1\<newline>end [1500]''"

definition fraction_log :: string where
  "fraction_log = ''start\<newline>1,0\<newline>2,1\<newline>end [1.5]''"

lemma findall_gain_log: "findall gain_log = [(''\<newline>1,0\<newline>2,1\<newline>'', ''1500'')]"
  unfolding gain_log_def by code_simp

lemma findall_fraction_log: "findall fraction_log = [(''\<newline>1,0\<newline>2,1\<newline>'', ''1.5'')]"
  unfolding fraction_log_def by code_simp

lemma collect_12: "collect_data (session_data ''\<newline>1,0\<newline>2,1\<newline>'') [] = Inr [1, 2]"
  by code_simp

lemma wfb_12: "well_formed_body ''\<newline>1,0\<newline>2,1\<newline>''"
  by code_simp

lemma py_int_1500: "py_int ''1500'' = Some 1500"
  by code_simp

lemma process_session_1500:
  "process_session (''\<newline>1,0\<newline>2,1\<newline>'', ''1500'') = Inr (Fin (3 / 2), 5)"
  using py_int_py_float[OF py_int_1500]
  by (simp add: process_session_def collect_12 SAMPLING_RATE_def find_osc_period_1_2)

lemma process_sessions_gain_log:
  "process_sessions gain_log 1 = Inr [1 \<mapsto> (Fin (3 / 2), 5)]"
  by (simp add: process_sessions_def findall_gain_log py_index_def process_session_1500 upto.simps)

text \<open>
  C5. In every mapping that \<open>process_sessions\<close> returns, the gain recorded for a block
  whose bracketed field is an integer numeral is that integer, as a float, divided by
  1000. The block ending \<^verbatim>\<open>end [1500]\<close> yields the gain \<open>1.5\<close>.
\<close>

theorem recorded_gain_is_milli_units:
  assumes "process_sessions text n = Inr m" and "m sid = Some (gain, period)"
    and "py_int (snd (findall text ! nat (sid - 1))) = Some raw"
  shows "gain = Fin (real_of_int raw / 1000)"
proof -
  obtain session g where sg: "findall text ! nat (sid - 1) = (session, g)"
    by (cases "findall text ! nat (sid - 1)")
  from process_sessions_lookup[OF assms(1,2)] sg
  have ps: "process_session (session, g) = Inr (gain, period)" by simp
  from assms(3) sg have "py_float g = Some (Fin (real_of_int raw))"
    by (simp add: py_int_py_float)
  with ps show ?thesis
    by (auto simp: process_session_def split: sum.splits)
qed

theorem recorded_gain_is_milli_units_witness:
  "process_sessions gain_log 1 = Inr [1 \<mapsto> (Fin (3 / 2), 5)] \<and>
   py_int (snd (findall gain_log ! nat (1 - 1))) = Some 1500 \<and>
   Fin (3 / 2) = Fin (real_of_int 1500 / 1000)"
  using recorded_gain_is_milli_units [of gain_log 1 "[1 \<mapsto> (Fin (3 / 2), 5)]" 1 "Fin (3 / 2)" 5 1500]
  by (simp add: process_sessions_gain_log findall_gain_log py_int_1500)

text \<open>
  C9. A block among the last \<open>n\<close> whose gain field is a decimal numeral with a fractional
  part, \<open>ip.fp\<close>, raises no conversion error at its gain: \<^verbatim>\<open>int\<close> rejects the field and
  \<^verbatim>\<open>float\<close>, which the code calls, accepts it. With the bodies of the processed blocks
  well formed and the other gain fields numerals, \<open>process_sessions\<close> returns a mapping,
  and the gain it records for the block is the value of the numeral divided by 1000;
  \<^verbatim>\<open>end [1.5]\<close> yields \<open>0.0015\<close>.
\<close>

theorem fractional_gain_is_float:
  assumes "blocks = findall text" and "k = int (length blocks)"
    and "0 \<le> n" and "n \<le> k"
    and "\<forall>i. k - n \<le> i \<and> i < k \<longrightarrow>
           well_formed_body (fst (blocks ! nat i)) \<and>
           (i \<noteq> j \<longrightarrow> py_float (snd (blocks ! nat i)) \<noteq> None)"
    and "k - n \<le> j" and "j < k"
    and "snd (blocks ! nat j) = ip @ ''.'' @ fp"
    and "ip \<noteq> []" and "fp \<noteq> []" and "list_all is_digit ip" and "list_all is_digit fp"
  shows "py_int (ip @ ''.'' @ fp) = None \<and>
         (\<exists>m period. process_sessions text n = Inr m \<and>
            m (j + 1) =
              Some (Fin ((real (dec_val ip) + real (dec_val fp) / 10 ^ length fp) / 1000), period))"
proof -
  let ?v = "real (dec_val ip) + real (dec_val fp) / 10 ^ length fp"
  note fr = fraction_py_float[OF assms(9-12)]
  have ok: "\<forall>i. k - n \<le> i \<and> i < k \<longrightarrow> (\<exists>gp. process_session (blocks ! nat i) = Inr gp)"
  proof (intro allI impI)
    fix i assume i: "k - n \<le> i \<and> i < k"
    obtain session gain where sg: "blocks ! nat i = (session, gain)" by (cases "blocks ! nat i")
    from i assms(5) sg have wb: "well_formed_body session" by auto
    have "\<exists>g. py_float gain = Some g"
    proof (cases "i = j")
      case True
      with assms(8) sg fr(1) show ?thesis by simp
    next
      case False
      with i assms(5) sg show ?thesis by auto
    qed
    then obtain g where "py_float gain = Some g" by blast
    from process_session_ok[OF this wb] sg show "\<exists>gp. process_session (blocks ! nat i) = Inr gp"
      by auto
  qed
  from process_sessions_ok[of n "text"] ok assms(1-4) obtain m where
    m: "process_sessions text n = Inr m"
    and look: "\<forall>j. m j = (if k - n < j \<and> j \<le> k then block_result (blocks ! nat (j - 1)) else None)"
    by auto
  obtain session gain where sg: "blocks ! nat j = (session, gain)" by (cases "blocks ! nat j")
  with assms(8) have g: "gain = ip @ ''.'' @ fp" by simp
  from assms(5,6,7) sg have wb: "well_formed_body session" by auto
  from process_session_ok[OF fr(1) wb] obtain period where
    "process_session (session, ip @ ''.'' @ fp) = Inr (Fin (?v / 1000), period)" by auto
  with sg g have "block_result (blocks ! nat j) = Some (Fin (?v / 1000), period)"
    by (simp add: block_result_def)
  moreover from look assms(6,7) have "m (j + 1) = block_result (blocks ! nat j)" by simp
  ultimately show ?thesis using m fr(2) by auto
qed

theorem fractional_gain_is_float_witness:
  "py_int ''1.5'' = None \<and>
   (\<exists>m period. process_sessions fraction_log 1 = Inr m \<and> m 1 = Some (Fin (3 / 2000), period))"
proof -
  have k: "(1::int) = int (length (findall fraction_log))" by (simp add: findall_fraction_log)
  have wf: "\<forall>i. (1::int) - 1 \<le> i \<and> i < 1 \<longrightarrow>
           well_formed_body (fst (findall fraction_log ! nat i)) \<and>
           (i \<noteq> 0 \<longrightarrow> py_float (snd (findall fraction_log ! nat i)) \<noteq> None)"
    by (auto simp: findall_fraction_log wfb_12)
  have g: "snd (findall fraction_log ! nat 0) = ''1'' @ ''.'' @ ''5''"
    by (simp add: findall_fraction_log)
  from fractional_gain_is_float[OF refl k _ _ wf _ _ g]
  show ?thesis by (simp add: dec_val_def digit_val_def is_digit_def)
qed

text \<open>
  The sample series in the words of the claim: the lines of the body that are not
  blank, and of each the text in front of the first comma, as an integer.
\<close>

definition claimed_samples :: "string \<Rightarrow> py_error + int list" where
  "claimed_samples body =
     (let kept = filter (\<lambda>l. \<not> list_all str_isspace l) (split_on newline body);
          fields = map (takeWhile (\<lambda>c. c \<noteq> comma)) kept
      in if list_all (\<lambda>f. py_int f \<noteq> None) fields
         then Inr (map (\<lambda>f. the (py_int f)) fields) else Inl ValueError)"

text \<open>The same with every kept line stripped of its white space first.\<close>

definition stripped_samples :: "string \<Rightarrow> py_error + int list" where
  "stripped_samples body =
     (let kept = filter (\<lambda>l. \<not> list_all str_isspace l) (split_on newline body);
          fields = map (\<lambda>l. takeWhile (\<lambda>c. c \<noteq> comma) (str_strip l)) kept
      in if list_all (\<lambda>f. py_int f \<noteq> None) fields
         then Inr (map (\<lambda>f. the (py_int f)) fields) else Inl ValueError)"

lemma strip_with_Nil: "strip_with p s = [] \<longleftrightarrow> list_all p s"
proof -
  have "dropWhile p s = [] \<longleftrightarrow> (\<forall>x\<in>set s. p x)" by (simp add: dropWhile_eq_Nil_conv)
  moreover have "(\<forall>x\<in>set (dropWhile p s). p x) \<longleftrightarrow> dropWhile p s = []"
  proof
    assume a: "\<forall>x\<in>set (dropWhile p s). p x"
    show "dropWhile p s = []"
    proof (rule ccontr)
      assume n: "dropWhile p s \<noteq> []"
      then have "\<not> p (hd (dropWhile p s))" by (rule hd_dropWhile)
      moreover from n have "hd (dropWhile p s) \<in> set (dropWhile p s)" by simp
      ultimately show False using a by blast
    qed
  next
    assume e: "dropWhile p s = []"
    show "\<forall>x\<in>set (dropWhile p s). p x" unfolding e by simp
  qed
  ultimately show ?thesis
    by (simp add: strip_with_def dropWhile_eq_Nil_conv list_all_iff)
qed

lemma session_data_kept:
  "session_data body =
     map str_strip (filter (\<lambda>l. \<not> list_all str_isspace l) (split_on newline body))"
  by (simp add: session_data_def filter_map o_def str_strip_def strip_with_Nil)

text \<open>
  C6, amended. The series handed to the estimator is built from the lines of the body
  that are not blank, in their order: each line is stripped of leading and trailing
  white space, the text in front of its first comma is converted with \<^verbatim>\<open>int\<close>, and what
  follows the comma is dropped. A field that is no integer numeral raises
  \<^verbatim>\<open>ValueError\<close>.
\<close>

theorem samples_from_stripped_lines:
  "collect_data (session_data session) [] = stripped_samples session \<and>
   process_session (session, gain) =
     (case py_float gain of
        None \<Rightarrow> Inl ValueError
      | Some g \<Rightarrow>
          (case stripped_samples session of
             Inl e \<Rightarrow> Inl e
           | Inr samples \<Rightarrow>
               (case find_osc_period (map real_of_int samples) SAMPLING_RATE of
                  Inl e \<Rightarrow> Inl e
                | Inr period \<Rightarrow> Inr (fdiv g 1000, period))))"
proof -
  have "collect_data (session_data session) [] = stripped_samples session"
    by (auto simp: collect_data_map session_data_kept stripped_samples_def Let_def
        list_all_iff o_def)
  then show ?thesis by (simp add: process_session_def split: option.splits)
qed

theorem samples_from_stripped_lines_witness:
  "collect_data (session_data ''\<newline>3,0\<newline>4,1\<newline>'') [] =
     stripped_samples ''\<newline>3,0\<newline>4,1\<newline>''"
  using samples_from_stripped_lines [of "''\<newline>3,0\<newline>4,1\<newline>''" "''3000''"] by simp

text \<open>
  C6. The claim takes the text in front of the first comma of the line as it stands.
  \<^verbatim>\<open>str.strip\<close> removes the information separators (code points 28 to 31), which
  \<^verbatim>\<open>int\<close> does not skip: for the line made of the separator 28 and \<^verbatim>\<open>5,1\<close> the code
  yields the sample \<open>5\<close>, the conversion of the unstripped field fails.
\<close>

theorem samples_unstripped_differ:
  "collect_data (session_data [CHR 0x1C, CHR ''5'', comma, CHR ''1'']) [] = Inr [5] \<and>
   claimed_samples [CHR 0x1C, CHR ''5'', comma, CHR ''1''] = Inl ValueError"
  by code_simp

section \<open>Properties of block discovery\<close>

text \<open>
  A segment is one discovered block with the text in front of it: the gap, the body
  (first group), what the pattern skips between \<^verbatim>\<open>end\<close> and the bracket, and the gain
  field (second group). \<open>assemble\<close> writes the segments one after the other, followed by
  the text behind the last block; \<open>layout\<close> says that every block starts a line, has
  none of its three parts empty, and ends a line.
\<close>

type_synonym segment = "string \<times> string \<times> string \<times> string"

fun assemble :: "segment list \<Rightarrow> string \<Rightarrow> string" where
  "assemble [] tail = tail"
| "assemble ((gap, body, sep, gain) # segs) tail =
     gap @ ''start'' @ body @ ''end'' @ sep @ ''['' @ gain @ '']'' @ assemble segs tail"

fun layout :: "segment list \<Rightarrow> string \<Rightarrow> bool" where
  "layout [] tail = True"
| "layout ((gap, body, sep, gain) # segs) tail =
     ((gap = [] \<or> last gap = newline) \<and> body \<noteq> [] \<and> sep \<noteq> [] \<and> gain \<noteq> [] \<and>
      at_eol (assemble segs tail) \<and> layout segs tail)"

definition seg_block :: "segment \<Rightarrow> string \<times> string" where
  "seg_block seg = (case seg of (gap, body, sep, gain) \<Rightarrow> (body, gain))"

lemma gain_scan_shape:
  "gain_scan acc s = Some (g, rest) \<Longrightarrow>
     \<exists>g'. g = rev acc @ g' \<and> s = g' @ CHR '']'' # rest \<and> at_eol rest"
proof (induction acc s rule: gain_scan.induct)
  case (1 acc)
  then show ?case by simp
next
  case (2 acc c cs)
  show ?case
  proof (cases "c = CHR '']'' \<and> at_eol cs")
    case True
    with 2 show ?thesis by auto
  next
    case False
    with 2 obtain g' where "g = rev (c # acc) @ g'" "cs = g' @ CHR '']'' # rest" "at_eol rest"
      by auto
    then show ?thesis by (intro exI[of _ "c # g'"]) simp
  qed
qed

lemma bracket_scan_shape:
  "bracket_scan s = Some (g, rest) \<Longrightarrow>
     \<exists>sk. g \<noteq> [] \<and> s = sk @ CHR ''['' # g @ CHR '']'' # rest \<and> at_eol rest"
proof (induction s)
  case Nil
  then show ?case by simp
next
  case (Cons c cs)
  show ?case
  proof (cases "if c = CHR ''['' then (case cs of [] \<Rightarrow> None | d # ds \<Rightarrow> gain_scan [d] ds)
                else None")
    case None
    with Cons obtain sk where "g \<noteq> []" "cs = sk @ CHR ''['' # g @ CHR '']'' # rest" "at_eol rest"
      by auto
    then show ?thesis by (intro exI[of _ "c # sk"]) simp
  next
    case (Some r)
    with Cons.prems have r: "r = (g, rest)" by simp
    from Some r obtain d ds where c: "c = CHR ''[''" and cs: "cs = d # ds"
      and gs: "gain_scan [d] ds = Some (g, rest)"
      by (auto split: if_splits list.splits)
    from gain_scan_shape[OF gs] obtain g' where "g = [d] @ g'" "ds = g' @ CHR '']'' # rest" "at_eol rest"
      by auto
    with c cs show ?thesis by (intro exI[of _ "[]"]) simp
  qed
qed

lemma end_here_shape:
  assumes "end_here s = Some (g, rest)"
  shows "\<exists>sep. sep \<noteq> [] \<and> g \<noteq> [] \<and> s = ''end'' @ sep @ CHR ''['' # g @ CHR '']'' # rest \<and> at_eol rest"
proof -
  from assms obtain e es where t: "take 3 s = ''end''" and d: "drop 3 s = e # es"
    and b: "bracket_scan es = Some (g, rest)"
    unfolding end_here_def by (cases "drop 3 s") (simp_all split: if_splits)
  from bracket_scan_shape[OF b] obtain sk where
    sk: "g \<noteq> []" "es = sk @ CHR ''['' # g @ CHR '']'' # rest" "at_eol rest" by auto
  have "s = take 3 s @ drop 3 s" by simp
  with t d sk have "s = ''end'' @ (e # sk) @ CHR ''['' # g @ CHR '']'' # rest" by simp
  with sk show ?thesis by blast
qed

lemma body_scan_shape:
  "body_scan acc s = Some (b, g, rest) \<Longrightarrow>
     \<exists>b' sep. b = rev acc @ b' \<and> sep \<noteq> [] \<and> g \<noteq> [] \<and>
        s = b' @ ''end'' @ sep @ CHR ''['' # g @ CHR '']'' # rest \<and> at_eol rest"
proof (induction acc s rule: body_scan.induct)
  case (1 acc)
  then show ?case by simp
next
  case (2 acc c cs)
  show ?case
  proof (cases "end_here (c # cs)")
    case None
    with 2 obtain b' sep where "b = rev (c # acc) @ b'" "sep \<noteq> []" "g \<noteq> []"
      "cs = b' @ ''end'' @ sep @ CHR ''['' # g @ CHR '']'' # rest" "at_eol rest"
      by auto
    then show ?thesis by (intro exI[of _ "c # b'"] exI[of _ sep]) simp
  next
    case (Some r)
    with "2.prems" have e: "end_here (c # cs) = Some (g, rest)" and b: "b = rev acc"
      by (cases r; simp)+
    from end_here_shape[OF e] obtain sep where "sep \<noteq> []" "g \<noteq> []"
      "c # cs = ''end'' @ sep @ CHR ''['' # g @ CHR '']'' # rest" "at_eol rest" by auto
    with b show ?thesis by (intro exI[of _ "[]"] exI[of _ sep]) simp
  qed
qed

lemma match_at_shape:
  assumes "match_at s = Some (b, g, rest)"
  shows "\<exists>sep. b \<noteq> [] \<and> sep \<noteq> [] \<and> g \<noteq> [] \<and>
           s = ''start'' @ b @ ''end'' @ sep @ ''['' @ g @ '']'' @ rest \<and> at_eol rest"
proof -
  from assms obtain d ds where t: "take 5 s = ''start''" and d: "drop 5 s = d # ds"
    and bs: "body_scan [d] ds = Some (b, g, rest)"
    unfolding match_at_def by (cases "drop 5 s") (simp_all split: if_splits)
  from body_scan_shape[OF bs] obtain b' sep where
    sh: "b = [d] @ b'" "sep \<noteq> []" "g \<noteq> []"
      "ds = b' @ ''end'' @ sep @ CHR ''['' # g @ CHR '']'' # rest" "at_eol rest" by auto
  have "s = take 5 s @ drop 5 s" by simp
  with t d sh have "s = ''start'' @ b @ ''end'' @ sep @ ''['' @ g @ '']'' @ rest" by simp
  with sh show ?thesis by blast
qed

lemma findall_from_layout:
  "\<exists>segs tail. s = assemble segs tail \<and> findall_from bol s = map seg_block segs \<and>
     layout segs tail \<and> (case segs of [] \<Rightarrow> True | seg # _ \<Rightarrow> fst seg = [] \<longrightarrow> bol)"
proof (induction bol s rule: findall_from.induct)
  case (1 bol)
  show ?case by (intro exI[of _ "[]"]) simp
next
  case (2 bol c cs)
  show ?case
  proof (cases "if bol then match_at (c # cs) else None")
    case None
    from 2(1)[OF None] obtain segs tail where
      ih: "cs = assemble segs tail" "findall_from (c = newline) cs = map seg_block segs"
        "layout segs tail" "case segs of [] \<Rightarrow> True | seg # _ \<Rightarrow> fst seg = [] \<longrightarrow> c = newline"
      by blast
    from None have f: "findall_from bol (c # cs) = findall_from (c = newline) cs" by simp
    show ?thesis
    proof (cases segs)
      case Nil
      with ih f show ?thesis
        by (intro exI[of _ "[]"] exI[of _ "c # tail"]) simp
    next
      case (Cons seg segs')
      obtain gap body sep gain where seg: "seg = (gap, body, sep, gain)" by (cases seg) auto
      let ?segs = "(c # gap, body, sep, gain) # segs'"
      have "c # cs = assemble ?segs tail" using ih(1) Cons seg by simp
      moreover have "findall_from bol (c # cs) = map seg_block ?segs"
        using ih(2) f Cons seg by (simp add: seg_block_def)
      moreover have "layout ?segs tail" using ih(3,4) Cons seg by auto
      ultimately show ?thesis by (intro exI[of _ ?segs] exI[of _ tail]) simp
    qed
  next
    case (Some r)
    obtain b g rest where r: "r = (b, g, rest)" by (cases r) auto
    from Some r have bol: bol and m: "match_at (c # cs) = Some (b, g, rest)"
      by (auto split: if_splits)
    from 2(2)[OF Some r[symmetric] refl] obtain segs tail where
      ih: "rest = assemble segs tail" "findall_from False rest = map seg_block segs"
        "layout segs tail" by blast
    from match_at_shape[OF m] obtain sep where
      sh: "b \<noteq> []" "sep \<noteq> []" "g \<noteq> []"
        "c # cs = ''start'' @ b @ ''end'' @ sep @ ''['' @ g @ '']'' @ rest" "at_eol rest" by blast
    let ?segs = "([], b, sep, g) # segs"
    have "c # cs = assemble ?segs tail" using sh(4) ih(1) by simp
    moreover have "findall_from bol (c # cs) = map seg_block ?segs"
      using Some r ih(2) by (simp add: seg_block_def)
    moreover have "layout ?segs tail" using sh ih by simp
    ultimately show ?thesis using bol by (intro exI[of _ ?segs] exI[of _ tail]) simp
  qed
qed


lemma gain_scan_accept:
  "CHR '']'' \<notin> set g \<Longrightarrow> at_eol rest \<Longrightarrow>
     gain_scan acc (g @ CHR '']'' # rest) = Some (rev acc @ g, rest)"
  by (induction g arbitrary: acc) auto

lemma end_here_other: "c \<noteq> CHR ''e'' \<Longrightarrow> end_here (c # cs) = None"
  by (simp add: end_here_def)

lemma body_scan_skip:
  "CHR ''e'' \<notin> set xs \<Longrightarrow> body_scan acc (xs @ s) = body_scan (rev xs @ acc) s"
  by (induction xs arbitrary: acc) (auto simp: end_here_other)

lemma match_at_simple_block:
  assumes "body \<noteq> []" and "CHR ''e'' \<notin> set body" and "g \<noteq> []" and "CHR '']'' \<notin> set g"
    and "at_eol rest"
  shows "match_at (''start'' @ body @ ''end ['' @ g @ '']'' @ rest) = Some (body, g, rest)"
proof -
  from assms(1) obtain d ds where body: "body = d # ds" by (cases body) auto
  from assms(3) obtain x xs where g: "g = x # xs" by (cases g) auto
  from assms(4) g have "CHR '']'' \<notin> set xs" by simp
  from gain_scan_accept[OF this assms(5), of "[x]"]
  have gs: "gain_scan [x] (xs @ CHR '']'' # rest) = Some (g, rest)" by (simp add: g)
  have eh: "end_here (''end ['' @ g @ '']'' @ rest) = Some (g, rest)"
    using gs by (simp add: end_here_def g)
  have "body_scan [d] (ds @ ''end ['' @ g @ '']'' @ rest) =
        body_scan (rev ds @ [d]) (''end ['' @ g @ '']'' @ rest)"
    using assms(2) body by (intro body_scan_skip) simp
  also have "\<dots> = Some (body, g, rest)"
    using eh by (simp add: body)
  finally show ?thesis by (simp add: match_at_def body)
qed

lemma findall_simple_block:
  assumes "body \<noteq> []" and "CHR ''e'' \<notin> set body" and "g \<noteq> []" and "CHR '']'' \<notin> set g"
  shows "findall (''start'' @ body @ ''end ['' @ g @ '']'') = [(body, g)]"
proof -
  have "match_at (''start'' @ body @ ''end ['' @ g @ '']'' @ []) = Some (body, g, [])"
    using assms by (intro match_at_simple_block) (simp_all add: at_eol_def)
  then show ?thesis by (simp add: findall_def)
qed

lemma gain_scan_no_bracket: "CHR '']'' \<notin> set s \<Longrightarrow> gain_scan acc s = None"
  by (induction s arbitrary: acc) auto

lemma bracket_scan_no_bracket: "CHR '']'' \<notin> set s \<Longrightarrow> bracket_scan s = None"
  by (induction s) (auto simp: gain_scan_no_bracket split: list.splits)

lemma end_here_no_bracket:
  assumes "CHR '']'' \<notin> set s"
  shows "end_here s = None"
proof -
  have "set (tl (drop 3 s)) \<subseteq> set s"
    by (metis list.set_sel(2) set_drop_subset subsetI subset_trans tl_Nil)
  with assms have "CHR '']'' \<notin> set (tl (drop 3 s))" by blast
  then show ?thesis
    by (cases "drop 3 s") (simp_all add: end_here_def bracket_scan_no_bracket)
qed

lemma body_scan_no_bracket: "CHR '']'' \<notin> set s \<Longrightarrow> body_scan acc s = None"
proof (induction s arbitrary: acc)
  case Nil
  then show ?case by simp
next
  case (Cons c cs)
  from Cons.prems have "end_here (c # cs) = None" by (rule end_here_no_bracket)
  with Cons show ?case by simp
qed

lemma match_at_no_bracket:
  assumes "CHR '']'' \<notin> set s"
  shows "match_at s = None"
proof -
  have "set (tl (drop 5 s)) \<subseteq> set s"
    by (metis list.set_sel(2) set_drop_subset subsetI subset_trans tl_Nil)
  with assms have "CHR '']'' \<notin> set (tl (drop 5 s))" by blast
  then show ?thesis
    by (cases "drop 5 s") (simp_all add: match_at_def body_scan_no_bracket)
qed

lemma findall_from_no_bracket: "CHR '']'' \<notin> set s \<Longrightarrow> findall_from bol s = []"
proof (induction s arbitrary: bol)
  case Nil
  then show ?case by simp
next
  case (Cons c cs)
  from Cons.prems have "match_at (c # cs) = None" by (rule match_at_no_bracket)
  with Cons show ?case by simp
qed

text \<open>
  Two logs with a malformed first block: its gain field is not a numeral, or its
  \<^verbatim>\<open>end [...]\<close> line is missing.
\<close>

definition bad_gain_log :: string where
  "bad_gain_log =
     ''start\<newline>1,0\<newline>end [abc]\<newline>start\<newline>3,0\<newline>end [3000]\<newline>''"

definition unterminated_log :: string where
  "unterminated_log = ''start\<newline>1,0\<newline>start\<newline>3,0\<newline>end [3000]\<newline>''"

lemma py_float_abc: "py_float ''abc'' = None"
  by (simp add: py_float_def strip_with_def num_isspace_def unsigned_float_def to_lower_def
      mantissa_def is_exp_mark_def digitpart_def is_digit_def)

text \<open>
  C4. The claim: a block with a gain field that is no numeral, or without its
  \<^verbatim>\<open>end [...]\<close> line, is not matched, is left out of the count and neither merges with
  nor renumbers the blocks behind it. The block with the field \<^verbatim>\<open>[abc]\<close> is matched and
  counted, so the block behind it is the second of the list; the block without
  terminator is matched together with the block behind it, as one.
\<close>

theorem block_discovery_counts_malformed:
  "findall bad_gain_log = [(''\<newline>1,0\<newline>'', ''abc''), (''\<newline>3,0\<newline>'', ''3000'')] \<and>
   py_float ''abc'' = None \<and>
   findall unterminated_log = [(''\<newline>1,0\<newline>start\<newline>3,0\<newline>'', ''3000'')]"
proof -
  have "findall bad_gain_log = [(''\<newline>1,0\<newline>'', ''abc''), (''\<newline>3,0\<newline>'', ''3000'')]"
    unfolding bad_gain_log_def by code_simp
  moreover have "findall unterminated_log = [(''\<newline>1,0\<newline>start\<newline>3,0\<newline>'', ''3000'')]"
    unfolding unterminated_log_def by code_simp
  ultimately show ?thesis using py_float_abc by simp
qed

text \<open>
  C4, amended. The blocks are discovered in the order of the text, one behind the
  other, none inside or across another: the text is the blocks of the match list, in
  that order, each after its gap, each starting and ending a line. A text with no
  \<^verbatim>\<open>]\<close> has no block. The gain field is not inspected: a block with a body free of the
  letter \<^verbatim>\<open>e\<close> and any non-empty field free of \<^verbatim>\<open>]\<close> is matched, and when the field is no
  numeral, processing that block raises \<^verbatim>\<open>ValueError\<close>.
\<close>

theorem block_discovery_layout:
  "(\<exists>segs tail. text = assemble segs tail \<and> findall text = map seg_block segs \<and>
      layout segs tail) \<and>
   (CHR '']'' \<notin> set text \<longrightarrow> findall text = []) \<and>
   (body \<noteq> [] \<and> CHR ''e'' \<notin> set body \<and> gain \<noteq> [] \<and> CHR '']'' \<notin> set gain \<longrightarrow>
      findall (''start'' @ body @ ''end ['' @ gain @ '']'') = [(body, gain)] \<and>
      (py_float gain = None \<longrightarrow> process_session (body, gain) = Inl ValueError))"
proof (intro conjI impI)
  from findall_from_layout[of "text" True]
  show "\<exists>segs tail. text = assemble segs tail \<and> findall text = map seg_block segs \<and>
      layout segs tail"
    unfolding findall_def by blast
next
  assume "CHR '']'' \<notin> set text"
  then show "findall text = []" by (simp add: findall_def findall_from_no_bracket)
next
  assume "body \<noteq> [] \<and> CHR ''e'' \<notin> set body \<and> gain \<noteq> [] \<and> CHR '']'' \<notin> set gain"
  then show "findall (''start'' @ body @ ''end ['' @ gain @ '']'') = [(body, gain)]"
    by (intro findall_simple_block) simp_all
next
  assume "py_float gain = None"
  then show "process_session (body, gain) = Inl ValueError"
    by (simp add: process_session_def)
qed

theorem block_discovery_layout_witness:
  "(\<exists>segs tail. example_log = assemble segs tail \<and> findall example_log = map seg_block segs \<and>
      layout segs tail) \<and>
   findall ''start\<newline>1,0\<newline>'' = [] \<and>
   findall (''start'' @ ''\<newline>1,0\<newline>'' @ ''end ['' @ ''abc'' @ '']'') = [(''\<newline>1,0\<newline>'', ''abc'')] \<and>
   process_session (''\<newline>1,0\<newline>'', ''abc'') = Inl ValueError"
  using block_discovery_layout [of example_log "''\<newline>1,0\<newline>''" "''abc''"]
    block_discovery_layout [of "''start\<newline>1,0\<newline>''" "''\<newline>1,0\<newline>''" "''abc''"] py_float_abc
  by simp

end
